theory Spec2Isabelle
  imports Main "HOL-Library.Word" "HOL-Library.Signed_Division"
begin

unbundle bit_operations_syntax

section \<open>Data model\<close>

text \<open>
  The header \<^verbatim>\<open>sqd_helper.hpp\<close> works on \<^verbatim>\<open>uint64_t\<close> CI strings, \<^verbatim>\<open>uint8_t\<close>
  bytes and \<^verbatim>\<open>boost::dynamic_bitset<>\<close> rows. A bitset is modelled as the list of its
  bits, position \<open>i\<close> of the list being \<^verbatim>\<open>row[i]\<close>.
\<close>

type_synonym u8 = "8 word"
type_synonym u64 = "64 word"
type_synonym dynamic_bitset = "bool list"

text \<open>
  The header contains no \<^verbatim>\<open>throw\<close>. What can stop a call is either an operation
  whose behaviour C++ leaves undefined (an index outside a container, a shift by the
  width of the type, a floating value converted to an integer type that cannot hold it,
  signed overflow), or the \<^verbatim>\<open>std::length_error\<close> that the \<^verbatim>\<open>std::vector\<close>
  constructor raises for an impossible size.
\<close>

datatype fault = Undefined_Behaviour | Length_Error

section \<open>From bit rows to CI strings\<close>

text \<open>
  \<^verbatim>\<open>static_cast<uint64_t>(std::pow(2, i))\<close>: the double \<open>2 ^ i\<close> is exact, and its
  conversion is defined only when the value fits 64 bits.
\<close>

definition pow2_u64 :: "nat \<Rightarrow> fault + u64" where
  "pow2_u64 i = (if i < 64 then Inr (2 ^ i) else Inl Undefined_Behaviour)"

text \<open>
  One inner loop of \<^verbatim>\<open>bitstring_matrix_to_ci_strs\<close>:
  \<^verbatim>\<open>for (i = 0; i < norb; ++i) if (row[i + off]) acc += pow(2, i)\<close>, run over the
  indices still to visit. Reading a bit beyond the row's size is outside the bitset.
\<close>

fun sector_loop :: "dynamic_bitset \<Rightarrow> nat \<Rightarrow> nat list \<Rightarrow> u64 \<Rightarrow> fault + u64" where
  "sector_loop row off [] acc = Inr acc"
| "sector_loop row off (i # is) acc =
     (if length row \<le> i + off then Inl Undefined_Behaviour
      else if row ! (i + off) then
        (case pow2_u64 i of
           Inl e \<Rightarrow> Inl e
         | Inr p \<Rightarrow> sector_loop row off is (acc + p))
      else sector_loop row off is acc)"

text \<open>
  The body of the loop over configurations: the first inner loop reads \<^verbatim>\<open>row[i]\<close> into
  \<^verbatim>\<open>ci_str_left[config]\<close>, the second reads \<^verbatim>\<open>row[i + norb]\<close> into
  \<^verbatim>\<open>ci_str_right[config]\<close>.
\<close>

definition encode_config :: "nat \<Rightarrow> dynamic_bitset \<Rightarrow> fault + (u64 \<times> u64)" where
  "encode_config norb row =
     (case sector_loop row 0 [0..<norb] 0 of
        Inl e \<Rightarrow> Inl e
      | Inr l \<Rightarrow>
          (case sector_loop row norb [0..<norb] 0 of
             Inl e \<Rightarrow> Inl e
           | Inr r \<Rightarrow> Inr (l, r)))"

fun encode_configs :: "nat \<Rightarrow> dynamic_bitset list \<Rightarrow> fault + (u64 list \<times> u64 list)" where
  "encode_configs norb [] = Inr ([], [])"
| "encode_configs norb (row # rows) =
     (case encode_config norb row of
        Inl e \<Rightarrow> Inl e
      | Inr (l, r) \<Rightarrow>
          (case encode_configs norb rows of
             Inl e \<Rightarrow> Inl e
           | Inr (ci_str_left, ci_str_right) \<Rightarrow> Inr (l # ci_str_left, r # ci_str_right)))"

text \<open>
  Everything after \<^verbatim>\<open>norb\<close> has been read. A \<^verbatim>\<open>std::set<uint64_t>\<close> is a set of
  words, and building a vector from its iterators lists it in ascending order.
\<close>

definition ci_strs_for_norb ::
  "dynamic_bitset list \<Rightarrow> nat \<Rightarrow> bool \<Rightarrow> fault + (u64 list \<times> u64 list)" where
  "ci_strs_for_norb bitstring_matrix norb open_shell =
     (case encode_configs norb bitstring_matrix of
        Inl e \<Rightarrow> Inl e
      | Inr (ci_str_left, ci_str_right) \<Rightarrow>
          (let unique_ci_str_left = set ci_str_left;
               unique_ci_str_right = set ci_str_right;
               combined_set = ({} \<union> unique_ci_str_left) \<union> unique_ci_str_right;
               unique_ci_str_left' = (if \<not> open_shell then combined_set else unique_ci_str_left);
               unique_ci_str_right' = (if \<not> open_shell then combined_set else unique_ci_str_right);
               result_left = sorted_list_of_set unique_ci_str_left';
               result_right = sorted_list_of_set unique_ci_str_right'
           in Inr (result_right, result_left)))"

text \<open>
  \<^verbatim>\<open>bitstring_matrix_to_ci_strs\<close>: \<^verbatim>\<open>norb = bitstring_matrix[0].size() / 2\<close> is read
  with no check that the batch has a first row.
\<close>

definition bitstring_matrix_to_ci_strs ::
  "dynamic_bitset list \<Rightarrow> bool \<Rightarrow> fault + (u64 list \<times> u64 list)" where
  "bitstring_matrix_to_ci_strs bitstring_matrix open_shell =
     (case bitstring_matrix of
        [] \<Rightarrow> Inl Undefined_Behaviour
      | row0 # _ \<Rightarrow> ci_strs_for_norb bitstring_matrix (length row0 div 2) open_shell)"

section \<open>The run configuration and the outside world\<close>

text \<open>
  \<^verbatim>\<open>struct SQD\<close>, without its MPI communicator handle. The functions below read
  \<^verbatim>\<open>run_id\<close>, \<^verbatim>\<open>verbose\<close> and \<^verbatim>\<open>with_hf\<close>.
\<close>

record SQD =
  date_str :: string
  run_id :: string
  n_recovery :: u64
  samples_per_batch :: u64
  verbose :: bool
  with_hf :: bool
  backend_name :: string
  num_shots :: u64
  mpi_rank :: int
  mpi_size :: int

text \<open>
  What the functions act on: the files by name, which names can be opened for writing,
  and the lines sent to \<^verbatim>\<open>std::cout\<close> and \<^verbatim>\<open>std::cerr\<close>. A line of \<^verbatim>\<open>cout\<close> is
  kept without the wall-clock prefix that \<^verbatim>\<open>get_time()\<close> puts before it.
\<close>

record world =
  files :: "string \<Rightarrow> u8 list option"
  can_open :: "string \<Rightarrow> bool"
  cout :: "string list"
  cerr :: "string list"

definition log :: "SQD \<Rightarrow> string list \<Rightarrow> world \<Rightarrow> world" where
  "log sqd_data messages w =
     (if verbose sqd_data then w\<lparr>cout := cout w @ [concat messages]\<rparr> else w)"

text \<open>\<^verbatim>\<open>std::to_string\<close> of a \<^verbatim>\<open>size_t\<close>: the decimal digits.\<close>

definition digit_char :: "nat \<Rightarrow> char" where
  "digit_char d = ''0123456789'' ! d"

function to_string :: "nat \<Rightarrow> string" where
  "to_string n =
     (if n < 10 then [digit_char n] else to_string (n div 10) @ [digit_char (n mod 10)])"
  by pat_completeness auto
termination
  by (relation "measure id") auto

declare to_string.simps [simp del]

section \<open>Serialisation\<close>

text \<open>
  The loop of \<^verbatim>\<open>integer_to_bytes\<close>, \<^verbatim>\<open>for (i = num_bytes - 1; i >= 0; --i)\<close>: the first
  argument is \<open>i + 1\<close>, the number of positions still to fill.
\<close>

fun fill_bytes :: "nat \<Rightarrow> u64 \<Rightarrow> u8 list \<Rightarrow> u8 list" where
  "fill_bytes 0 n result = result"
| "fill_bytes (Suc i) n result =
     fill_bytes i (drop_bit 8 n) (result[i := ucast (n AND 0xFF)])"

text \<open>
  \<^verbatim>\<open>norb\<close> is an \<^verbatim>\<open>int\<close>: \<^verbatim>\<open>norb + 7\<close> must not overflow it, \<^verbatim>\<open>/\<close> truncates
  towards zero, and a negative \<^verbatim>\<open>num_bytes\<close> is no size a vector can have.
\<close>

definition integer_to_bytes :: "u64 \<Rightarrow> int \<Rightarrow> fault + u8 list" where
  "integer_to_bytes n norb =
     (if 2 ^ 31 - 1 < norb + 7 then Inl Undefined_Behaviour
      else
        (let num_bytes = (norb + 7) sdiv 8 in
         if num_bytes < 0 then Inl Length_Error
         else Inr (fill_bytes (nat num_bytes) n (replicate (nat num_bytes) 0))))"

fun ci_strs_to_bytes :: "u64 list \<Rightarrow> int \<Rightarrow> fault + u8 list list" where
  "ci_strs_to_bytes [] norb = Inr []"
| "ci_strs_to_bytes (ci_str # ci_strs) norb =
     (case integer_to_bytes ci_str norb of
        Inl e \<Rightarrow> Inl e
      | Inr b \<Rightarrow>
          (case ci_strs_to_bytes ci_strs norb of
             Inl e \<Rightarrow> Inl e
           | Inr bytes \<Rightarrow> Inr (b # bytes)))"

text \<open>
  \<^verbatim>\<open>get_unique_ci_strs_with_HF\<close>. \<^verbatim>\<open>1ULL << num_elec\<close> is evaluated only under
  \<^verbatim>\<open>with_hf\<close>, and is defined only for a shift below 64.
\<close>

definition get_unique_ci_strs_with_HF ::
  "SQD \<Rightarrow> u64 list \<Rightarrow> u64 list \<Rightarrow> nat \<Rightarrow> fault + u64 list" where
  "get_unique_ci_strs_with_HF sqd_data left_ci_strs right_ci_strs num_elec =
     (if with_hf sqd_data \<and> 64 \<le> num_elec then Inl Undefined_Behaviour
      else
        (let unique_set = (if with_hf sqd_data then {push_bit num_elec 1 - 1} else {});
             unique_set = unique_set \<union> set left_ci_strs;
             unique_set = unique_set \<union> set right_ci_strs;
             ret = sorted_list_of_set unique_set
         in Inr (sort ret)))"

text \<open>
  \<^verbatim>\<open>write_bytestrings_to_file\<close>: when the stream is not open, one line goes to
  \<^verbatim>\<open>std::cerr\<close> and the function returns; otherwise the file starts empty and every
  byte string is written after the one before. A stream that has been opened is taken
  to accept every write.
\<close>

definition write_bytestrings_to_file :: "u8 list list \<Rightarrow> string \<Rightarrow> world \<Rightarrow> world" where
  "write_bytestrings_to_file byte_strings filename w =
     (if \<not> can_open w filename
      then w\<lparr>cerr := cerr w @ [''Error: Could not open file '' @ filename]\<rparr>
      else w\<lparr>files := (files w)
             (filename \<mapsto> foldl (\<lambda>written byte_string. written @ byte_string) [] byte_strings)\<rparr>)"

section \<open>The pipeline\<close>

text \<open>\<^verbatim>\<open>static_cast<int>(norb)\<close> of a \<^verbatim>\<open>size_t\<close>: the low 32 bits, read as signed.\<close>

definition static_cast_int :: "nat \<Rightarrow> int" where
  "static_cast_int n = sint (word_of_nat n :: 32 word)"

text \<open>
  The branch of \<^verbatim>\<open>write_alphadets_file\<close> on
  \<^verbatim>\<open>unique_ci_strs.size() < maximum_numbers_of_ctrs\<close>: it yields the vector as it stands
  afterwards and logs the counts.
\<close>

definition truncate_unique_ci_strs ::
  "SQD \<Rightarrow> u64 list \<Rightarrow> nat \<Rightarrow> world \<Rightarrow> u64 list \<times> world" where
  "truncate_unique_ci_strs sqd_data unique_ci_strs maximum_numbers_of_ctrs w =
     (if length unique_ci_strs < maximum_numbers_of_ctrs
      then (unique_ci_strs,
            log sqd_data
              [''number of unique ci_strs:'', to_string (length unique_ci_strs)] w)
      else
        (let truncated = length unique_ci_strs - maximum_numbers_of_ctrs;
             resized = take maximum_numbers_of_ctrs unique_ci_strs
         in (resized,
             log sqd_data
               [''number of unique ci_strs:'', to_string (length resized),
                '', truncated:'', to_string truncated] w)))"

definition alphadets_bin_file :: "SQD \<Rightarrow> nat \<Rightarrow> string" where
  "alphadets_bin_file sqd_data i_recovery =
     ''AlphaDets_'' @ run_id sqd_data @ ''_'' @ to_string i_recovery @ ''_cpp.bin''"

definition write_alphadets_file ::
  "SQD \<Rightarrow> nat \<Rightarrow> nat \<Rightarrow> dynamic_bitset list \<Rightarrow> nat \<Rightarrow> nat \<Rightarrow> world
     \<Rightarrow> fault + (string \<times> world)" where
  "write_alphadets_file sqd_data norb num_elec batch maximum_numbers_of_ctrs i_recovery w =
     (let w1 = log sqd_data [''number of items in a batch: '', to_string (length batch)] w;
          open_shell = False
      in case bitstring_matrix_to_ci_strs batch open_shell of
           Inl e \<Rightarrow> Inl e
         | Inr ci_strs \<Rightarrow>
             (let w2 = log sqd_data
                         [''number of items in left ci_strs:'',
                          to_string (length (fst ci_strs))] w1;
                  w3 = log sqd_data
                         [''number of items in right ci_strs:'',
                          to_string (length (snd ci_strs))] w2
              in case get_unique_ci_strs_with_HF sqd_data (fst ci_strs) (snd ci_strs) num_elec of
                   Inl e \<Rightarrow> Inl e
                 | Inr unique_ci_strs \<Rightarrow>
                     (case truncate_unique_ci_strs sqd_data unique_ci_strs
                             maximum_numbers_of_ctrs w3 of
                        (unique_ci_strs', w4) \<Rightarrow>
                          (case ci_strs_to_bytes unique_ci_strs' (static_cast_int norb) of
                             Inl e \<Rightarrow> Inl e
                           | Inr bytestrings \<Rightarrow>
                               Inr (alphadets_bin_file sqd_data i_recovery,
                                    write_bytestrings_to_file bytestrings
                                      (alphadets_bin_file sqd_data i_recovery) w4)))))"

section \<open>What the specification speaks of\<close>

text \<open>
  The notions below are those of the specification, written independently of the code
  above; the theorems compare the two.

  The base-2 value of a bit sector: bit \<open>i\<close> contributes \<open>2 ^ i\<close>.
\<close>

fun base2_value :: "bool list \<Rightarrow> nat" where
  "base2_value [] = 0"
| "base2_value (b # bs) = (if b then 1 else 0) + 2 * base2_value bs"

definition ci_value :: "bool list \<Rightarrow> u64" where
  "ci_value bits = word_of_nat (base2_value bits)"

text \<open>The two sectors of a row: bits \<open>[0, norb)\<close> and bits \<open>[norb, 2 * norb)\<close>.\<close>

definition low_half :: "nat \<Rightarrow> dynamic_bitset \<Rightarrow> bool list" where
  "low_half norb row = take norb row"

definition high_half :: "nat \<Rightarrow> dynamic_bitset \<Rightarrow> bool list" where
  "high_half norb row = take norb (drop norb row)"

text \<open>
  A big-endian record of \<open>k\<close> bytes for \<open>n\<close>: the least significant byte of \<open>n\<close> comes
  last, the bytes above it before it. \<open>be_value\<close> reads a byte sequence back as a number
  in base 256, most significant byte first.
\<close>

fun be_bytes :: "nat \<Rightarrow> u64 \<Rightarrow> u8 list" where
  "be_bytes 0 n = []"
| "be_bytes (Suc k) n = be_bytes k (drop_bit 8 n) @ [ucast n]"

definition be_value :: "u8 list \<Rightarrow> nat" where
  "be_value bytes = foldl (\<lambda>acc b. 256 * acc + unat b) 0 bytes"

section \<open>Concrete inputs\<close>

text \<open>
  The batch of the specification's scenario: \<open>norb = 4\<close>, low halves \<open>1,1,0,0\<close> and
  \<open>0,1,0,0\<close>, high halves \<open>1,0,0,0\<close>.
\<close>

definition example_batch :: "dynamic_bitset list" where
  "example_batch =
     [[True, True, False, False, True, False, False, False],
      [False, True, False, False, True, False, False, False]]"

definition example_sqd :: SQD where
  "example_sqd = \<lparr>date_str = ''run'', run_id = ''run'', n_recovery = 3,
     samples_per_batch = 1000, verbose = True, with_hf = True, backend_name = [],
     num_shots = 10000, mpi_rank = 0, mpi_size = 1\<rparr>"

definition writable_world :: world where
  "writable_world = \<lparr>files = Map.empty, can_open = (\<lambda>_. True), cout = [], cerr = []\<rparr>"

definition unwritable_world :: world where
  "unwritable_world = \<lparr>files = Map.empty, can_open = (\<lambda>_. False), cout = [], cerr = []\<rparr>"

section \<open>The encoder computes the base-2 value\<close>

lemma base2_value_horner: "base2_value bs = horner_sum of_bool 2 bs"
  by (induction bs) simp_all

lemma base2_value_less: "base2_value bs < 2 ^ length bs"
  by (simp add: base2_value_horner horner_sum_bound)

lemma word_of_base2_value: "(word_of_nat (base2_value bs) :: u64) = horner_sum of_bool 2 bs"
  by (induction bs) simp_all

lemma base2_value_sum: "base2_value b = (\<Sum>i | i < length b \<and> b ! i. 2 ^ i)"
proof -
  have "base2_value b = (\<Sum>n = 0..<length b. of_bool (b ! n) * 2 ^ n)"
    by (simp add: base2_value_horner horner_sum_eq_sum)
  also have "\<dots> = (\<Sum>n \<in> {0..<length b}. if b ! n then 2 ^ n else 0)"
    by (intro sum.cong) simp_all
  also have "\<dots> = (\<Sum>n \<in> {n \<in> {0..<length b}. b ! n}. 2 ^ n)"
    by (rule sum.inter_filter [symmetric]) simp
  also have "{n \<in> {0..<length b}. b ! n} = {i. i < length b \<and> b ! i}" by auto
  finally show ?thesis .
qed

lemma sector_loop_sum:
  "\<lbrakk>\<forall>i \<in> set is. i < 64 \<and> i + off < length row\<rbrakk> \<Longrightarrow>
   sector_loop row off is acc =
     Inr (acc + sum_list (map (\<lambda>i. of_bool (row ! (i + off)) * 2 ^ i) is))"
  by (induction "is" arbitrary: acc) (simp_all add: pow2_u64_def add.assoc)

lemma sector_loop_horner:
  assumes "norb \<le> 64" and "off + norb \<le> length row"
  shows "sector_loop row off [0..<norb] 0 = Inr (horner_sum of_bool 2 (take norb (drop off row)))"
proof -
  have "sector_loop row off [0..<norb] 0 =
          Inr (sum_list (map (\<lambda>i. of_bool (row ! (i + off)) * 2 ^ i) [0..<norb]))"
    using assms by (subst sector_loop_sum) auto
  also have "sum_list (map (\<lambda>i. of_bool (row ! (i + off)) * 2 ^ i) [0..<norb]) =
          (\<Sum>i = 0..<norb. of_bool (row ! (i + off)) * (2 :: u64) ^ i)"
    by (simp add: interv_sum_list_conv_sum_set_nat)
  also have "\<dots> = horner_sum of_bool 2 (take norb (drop off row))"
    using assms by (simp add: horner_sum_eq_sum add.commute)
  finally show ?thesis .
qed

lemma sector_loop_ci_value:
  assumes "norb \<le> 64" and "off + norb \<le> length row"
  shows "sector_loop row off [0..<norb] 0 = Inr (ci_value (take norb (drop off row)))"
  using assms by (simp add: sector_loop_horner word_of_base2_value ci_value_def)

lemma unat_ci_value:
  assumes "length bs \<le> 64"
  shows "unat (ci_value bs) = base2_value bs"
proof -
  from assms have "(2::nat) ^ length bs \<le> 2 ^ 64" by (intro power_increasing) simp_all
  with base2_value_less [of bs] have "base2_value bs < 2 ^ 64" by linarith
  then show ?thesis by (simp add: ci_value_def unat_of_nat)
qed

lemma bit_ci_value:
  "length bs \<le> 64 \<Longrightarrow> bit (ci_value bs) i \<longleftrightarrow> i < length bs \<and> bs ! i"
  by (auto simp add: ci_value_def word_of_base2_value bit_horner_sum_bit_word_iff)

lemma decode_bits:
  assumes "length b \<le> 64"
  shows "map (\<lambda>i. drop_bit i (ci_value b) AND 1 = 1) [0..<length b] = b"
  using assms
  by (intro nth_equalityI) (simp_all add: bit_ci_value flip: bit_iff_and_drop_bit_eq_1)

lemma ci_value_inj:
  assumes "length b \<le> 64" and "length b' = length b" and "ci_value b = ci_value b'"
  shows "b = b'"
proof -
  have "b = map (\<lambda>i. drop_bit i (ci_value b) AND 1 = 1) [0..<length b]"
    using assms(1) by (simp add: decode_bits)
  also have "\<dots> = map (\<lambda>i. drop_bit i (ci_value b') AND 1 = 1) [0..<length b']"
    using assms(2,3) by simp
  also have "\<dots> = b'" using assms(1,2) decode_bits [of b'] by simp
  finally show ?thesis .
qed

lemma ci_value_less: "length b \<le> 64 \<Longrightarrow> unat (ci_value b) < 2 ^ length b"
  by (simp add: unat_ci_value base2_value_less)

lemma ci_value_surj:
  assumes "unat (v :: u64) < 2 ^ norb"
  shows "ci_value (map (bit v) [0..<norb]) = v"
proof -
  have "ci_value (map (bit v) [0..<norb]) = take_bit norb v"
    by (simp add: ci_value_def word_of_base2_value horner_sum_bit_eq_take_bit)
  also have "\<dots> = v"
    using assms by (simp add: word_unat_eq_iff unsigned_take_bit_eq take_bit_nat_eq_self)
  finally show ?thesis .
qed

text \<open>
  Claim C2. For every \<open>norb \<le> 64\<close> and every bit sector \<open>b\<close> of width \<open>norb\<close>, the
  encoder's loop returns the sum of \<open>2 ^ i\<close> over the set positions \<open>i\<close> of \<open>b\<close>, and
  reading bit \<open>i\<close> back as \<open>(value >> i) & 1\<close> gives \<open>b\<close> again; the encoder is a
  bijection between the sectors of width \<open>norb\<close> and the integers below \<open>2 ^ norb\<close>.
\<close>

theorem ci_string_encoder_bijection:
  assumes "norb \<le> 64" and "length b = norb"
  shows "(\<exists>v. sector_loop b 0 [0..<norb] 0 = Inr v
            \<and> unat v = (\<Sum>i | i < norb \<and> b ! i. 2 ^ i)
            \<and> map (\<lambda>i. drop_bit i v AND 1 = 1) [0..<norb] = b)
       \<and> bij_betw (\<lambda>s. sector_loop s 0 [0..<norb] 0)
            {s. length s = norb} (Inr ` {v. unat v < 2 ^ norb})"
proof -
  have enc: "sector_loop s 0 [0..<norb] 0 = Inr (ci_value s)" if "length s = norb" for s
    using that assms(1) by (simp add: sector_loop_ci_value)
  have first: "\<exists>v. sector_loop b 0 [0..<norb] 0 = Inr v
            \<and> unat v = (\<Sum>i | i < norb \<and> b ! i. 2 ^ i)
            \<and> map (\<lambda>i. drop_bit i v AND 1 = 1) [0..<norb] = b"
  proof (intro exI conjI)
    show "sector_loop b 0 [0..<norb] 0 = Inr (ci_value b)" by (rule enc) (rule assms(2))
    show "unat (ci_value b) = (\<Sum>i | i < norb \<and> b ! i. 2 ^ i)"
      using assms unat_ci_value [of b] base2_value_sum [of b] by simp
    show "map (\<lambda>i. drop_bit i (ci_value b) AND 1 = 1) [0..<norb] = b"
      using assms decode_bits [of b] by simp
  qed
  have "bij_betw (\<lambda>s. Inr (ci_value s) :: fault + u64)
          {s. length s = norb} (Inr ` {v. unat v < 2 ^ norb})"
  proof (rule bij_betwI')
    fix s t :: "bool list"
    assume "s \<in> {s. length s = norb}" "t \<in> {s. length s = norb}"
    then show "((Inr (ci_value s) :: fault + u64) = Inr (ci_value t)) = (s = t)"
      using assms(1) ci_value_inj [of s t] by auto
  next
    fix s :: "bool list" assume "s \<in> {s. length s = norb}"
    then show "(Inr (ci_value s) :: fault + u64) \<in> Inr ` {v. unat v < 2 ^ norb}"
      using assms(1) ci_value_less [of s] by auto
  next
    fix y :: "fault + u64" assume "y \<in> Inr ` {v. unat v < 2 ^ norb}"
    then obtain v where v: "y = Inr v" "unat v < 2 ^ norb" by auto
    then have "ci_value (map (bit v) [0..<norb]) = v" by (simp add: ci_value_surj)
    with v show "\<exists>s \<in> {s. length s = norb}. y = Inr (ci_value s)"
      by (intro bexI [of _ "map (bit v) [0..<norb]"]) simp_all
  qed
  then have "bij_betw (\<lambda>s. sector_loop s 0 [0..<norb] 0)
            {s. length s = norb} (Inr ` {v. unat v < 2 ^ norb})"
    by (rule bij_betw_cong [THEN iffD2, rotated]) (simp add: enc)
  with first show ?thesis by blast
qed

theorem ci_string_encoder_bijection_witness:
  "sector_loop [True, False, True] 0 [0..<3] 0 = Inr 5
   \<and> map (\<lambda>i. drop_bit i (5 :: u64) AND 1 = 1) [0..<3] = [True, False, True]
   \<and> bij_betw (\<lambda>s. sector_loop s 0 [0..<3] 0) {s. length s = 3} (Inr ` {v. unat v < 2 ^ 3})"
  using ci_string_encoder_bijection [of 3 "[True, False, True]"]
  by (simp add: upt_rec pow2_u64_def)

section \<open>Records are big-endian\<close>

lemma length_be_bytes [simp]: "length (be_bytes k n) = k"
  by (induction k arbitrary: n) simp_all

lemma be_bytes_numeral:
  "be_bytes (numeral k) n = be_bytes (pred_numeral k) (drop_bit 8 n) @ [ucast n]"
  by (simp add: numeral_eq_Suc)

lemma be_bytes_1: "be_bytes 1 n = [ucast n]"
  using be_bytes.simps(2) [of 0 n] by simp

lemma ucast_low_byte: "(ucast (n AND 0xFF :: u64) :: u8) = ucast n"
proof -
  have "(0xFF :: u64) = mask 8" by (simp add: mask_eq_exp_minus_1)
  then show ?thesis
    by (simp add: bit_eq_iff bit_simps del: mask_eq_exp_minus_1)
qed

lemma fill_bytes_be_bytes:
  "k \<le> length result \<Longrightarrow> fill_bytes k n result = be_bytes k n @ drop k result"
proof (induction k arbitrary: n result)
  case 0
  then show ?case by simp
next
  case (Suc k)
  then have k: "k < length result" by simp
  have "fill_bytes (Suc k) n result =
          be_bytes k (drop_bit 8 n) @ drop k (result[k := ucast n])"
    using Suc.IH [of "result[k := ucast n]" "drop_bit 8 n"] k
    by (simp add: ucast_low_byte)
  also have "drop k (result[k := ucast n]) = ucast n # drop (Suc k) result"
    using k by (simp add: Cons_nth_drop_Suc [symmetric])
  finally show ?case by simp
qed

lemma be_value_snoc: "be_value (bytes @ [b]) = 256 * be_value bytes + unat b"
  by (simp add: be_value_def)

lemma be_value_be_bytes: "be_value (be_bytes k n) = unat n mod 2 ^ (8 * k)"
proof (induction k arbitrary: n)
  case 0
  then show ?case by (simp add: be_value_def)
next
  case (Suc k)
  have "be_value (be_bytes (Suc k) n) =
          256 * (unat (drop_bit 8 n) mod 2 ^ (8 * k)) + unat (ucast n :: u8)"
    by (simp add: be_value_snoc Suc.IH)
  also have "unat (drop_bit 8 n) = unat n div 256"
    by (simp add: drop_bit_eq_div unat_div)
  also have "unat (ucast n :: u8) = unat n mod 256"
    by (simp add: unsigned_ucast_eq take_bit_eq_mod)
  also have "256 * (unat n div 256 mod 2 ^ (8 * k)) + unat n mod 256 =
          unat n mod (256 * 2 ^ (8 * k))"
    by (simp add: mod_mult2_eq)
  also have "(256 :: nat) * 2 ^ (8 * k) = 2 ^ (8 * Suc k)" by (simp add: power_add)
  finally show ?case .
qed

lemma be_bytes_take_bit: "be_bytes k (take_bit (8 * k) m) = be_bytes k m"
proof (induction k arbitrary: m)
  case 0
  show ?case by simp
next
  case (Suc k)
  have "drop_bit 8 (take_bit (8 * Suc k) m) = take_bit (8 * k) (drop_bit 8 m)"
    by (simp add: drop_bit_take_bit)
  moreover have "(ucast (take_bit (8 * Suc k) m) :: u8) = ucast m"
    by (simp add: bit_eq_iff bit_simps)
  ultimately show ?case using Suc.IH [of "drop_bit 8 m"] by simp
qed

lemma integer_to_bytes_be_bytes:
  assumes "1 \<le> norb" and "norb \<le> 64"
  shows "integer_to_bytes n norb = Inr (be_bytes (nat ((norb + 7) div 8)) n)"
proof -
  have "(norb + 7) sdiv 8 = (norb + 7) div 8"
    using assms by (simp add: signed_divide_int_def sgn_if)
  moreover have "0 \<le> (norb + 7) div 8" using assms by simp
  ultimately show ?thesis
    using assms by (simp add: integer_to_bytes_def fill_bytes_be_bytes)
qed

lemma ci_strs_to_bytes_map:
  assumes "1 \<le> norb" and "norb \<le> 64"
  shows "ci_strs_to_bytes ci_strs norb =
           Inr (map (be_bytes (nat ((norb + 7) div 8))) ci_strs)"
  using assms by (induction ci_strs) (simp_all add: integer_to_bytes_be_bytes)

lemma record_width:
  assumes "1 \<le> norb"
  shows "norb \<le> 8 * int (nat ((norb + 7) div 8))"
    and "8 * int (nat ((norb + 7) div 8)) < norb + 8"
  using assms by auto

lemma be_value_exact:
  assumes "1 \<le> norb" and "unat n < 2 ^ nat norb"
  shows "be_value (be_bytes (nat ((norb + 7) div 8)) n) = unat n"
proof -
  have "nat norb \<le> 8 * nat ((norb + 7) div 8)" using assms(1) by auto
  then have "(2 :: nat) ^ nat norb \<le> 2 ^ (8 * nat ((norb + 7) div 8))"
    by (intro power_increasing) simp_all
  with assms(2) have "unat n < 2 ^ (8 * nat ((norb + 7) div 8))" by linarith
  then show ?thesis by (simp add: be_value_be_bytes)
qed

lemma foldl_append_concat: "foldl (\<lambda>written bs. written @ bs) acc bss = acc @ concat bss"
  by (induction bss arbitrary: acc) simp_all

lemma write_bytestrings_to_file_files:
  "files (write_bytestrings_to_file bss f w) =
     (if can_open w f then (files w)(f \<mapsto> concat bss) else files w)"
  by (simp add: write_bytestrings_to_file_def foldl_append_concat)

text \<open>
  Claim C1. For every \<open>norb\<close> in \<open>[1, 64]\<close> and every CI string \<open>n\<close> with
  \<open>n \<le> 2 ^ norb - 1\<close>, \<open>integer_to_bytes n norb\<close> returns exactly \<open>ceil (norb / 8)\<close> bytes,
  the big-endian base-256 representation of \<open>n\<close>, with every unused high-order bit zero;
  \<open>ci_strs_to_bytes\<close> followed by \<open>write_bytestrings_to_file\<close> puts these records in the
  file in the order of the input sequence, concatenated, with nothing before, between or
  after them. The number \<open>len\<close> of bytes is \<open>ceil (norb / 8)\<close> exactly when
  \<open>norb \<le> 8 * len < norb + 8\<close>.
\<close>

theorem integer_to_bytes_big_endian_records:
  assumes "1 \<le> norb" and "norb \<le> 64"
    and "\<forall>n \<in> set ci_strs. unat n < 2 ^ nat norb"
    and "can_open w filename"
  shows "\<exists>bytes. ci_strs_to_bytes ci_strs norb = Inr bytes
           \<and> length bytes = length ci_strs
           \<and> (\<forall>k < length ci_strs.
                 integer_to_bytes (ci_strs ! k) norb = Inr (bytes ! k)
               \<and> norb \<le> 8 * int (length (bytes ! k))
               \<and> 8 * int (length (bytes ! k)) < norb + 8
               \<and> bytes ! k = be_bytes (length (bytes ! k)) (ci_strs ! k)
               \<and> be_value (bytes ! k) = unat (ci_strs ! k)
               \<and> be_value (bytes ! k) < 2 ^ nat norb)
           \<and> files (write_bytestrings_to_file bytes filename w) =
                (files w)(filename \<mapsto> concat bytes)"
proof -
  let ?nb = "nat ((norb + 7) div 8)"
  let ?bytes = "map (be_bytes ?nb) ci_strs"
  have "ci_strs_to_bytes ci_strs norb = Inr ?bytes"
    using assms(1,2) by (rule ci_strs_to_bytes_map)
  moreover have "length ?bytes = length ci_strs" by simp
  moreover have "\<forall>k < length ci_strs.
                 integer_to_bytes (ci_strs ! k) norb = Inr (?bytes ! k)
               \<and> norb \<le> 8 * int (length (?bytes ! k))
               \<and> 8 * int (length (?bytes ! k)) < norb + 8
               \<and> ?bytes ! k = be_bytes (length (?bytes ! k)) (ci_strs ! k)
               \<and> be_value (?bytes ! k) = unat (ci_strs ! k)
               \<and> be_value (?bytes ! k) < 2 ^ nat norb"
  proof (intro allI impI)
    fix k assume k: "k < length ci_strs"
    then have small: "unat (ci_strs ! k) < 2 ^ nat norb" using assms(3) by simp
    have "be_value (be_bytes ?nb (ci_strs ! k)) = unat (ci_strs ! k)"
      using assms(1) small by (rule be_value_exact)
    then show "integer_to_bytes (ci_strs ! k) norb = Inr (?bytes ! k)
               \<and> norb \<le> 8 * int (length (?bytes ! k))
               \<and> 8 * int (length (?bytes ! k)) < norb + 8
               \<and> ?bytes ! k = be_bytes (length (?bytes ! k)) (ci_strs ! k)
               \<and> be_value (?bytes ! k) = unat (ci_strs ! k)
               \<and> be_value (?bytes ! k) < 2 ^ nat norb"
      using k small assms(1,2) record_width [OF assms(1)]
      by (simp add: integer_to_bytes_be_bytes)
  qed
  moreover have "files (write_bytestrings_to_file ?bytes filename w) =
                (files w)(filename \<mapsto> concat ?bytes)"
    using assms(4) by (simp add: write_bytestrings_to_file_files)
  ultimately show ?thesis by blast
qed

theorem integer_to_bytes_big_endian_records_witness:
  "ci_strs_to_bytes [0x0102, 3] 12 = Inr [[1, 2], [0, 3]]
   \<and> integer_to_bytes 0x0102 12 = Inr [1, 2]
   \<and> be_value [1, 2] = unat (0x0102 :: u64)
   \<and> files (write_bytestrings_to_file [[1, 2], [0, 3]] ''out.bin'' writable_world) =
        [''out.bin'' \<mapsto> [1, 2, 0, 3]]"
proof -
  have h: "\<forall>n \<in> set [0x0102, 3 :: u64]. unat n < 2 ^ nat 12" by simp
  have o: "can_open writable_world ''out.bin''" by (simp add: writable_world_def)
  have b: "ci_strs_to_bytes [0x0102, 3] 12 = Inr [[1, 2], [0, 3]]"
    by (simp add: integer_to_bytes_be_bytes be_bytes_numeral)
  from integer_to_bytes_big_endian_records [of 12 "[0x0102, 3]" writable_world "''out.bin''"]
    h o b
  have "files (write_bytestrings_to_file [[1, 2], [0, 3]] ''out.bin'' writable_world) =
          (files writable_world)(''out.bin'' \<mapsto> concat [[1, 2], [0, 3]])
        \<and> integer_to_bytes ([0x0102, 3] ! 0) 12 = Inr ([[1, 2], [0, 3]] ! 0)
        \<and> be_value ([[1, 2], [0, 3 :: u8]] ! 0) = unat ([0x0102, 3 :: u64] ! 0)"
    by auto
  then show ?thesis using b by (simp add: writable_world_def)
qed

text \<open>
  Claim C10. For every \<open>norb\<close> in \<open>[1, 64]\<close> and every \<open>n\<close> of at least
  \<open>2 ^ (8 * ceil (norb / 8))\<close>, \<open>integer_to_bytes n norb\<close> returns, with no failure and no
  wider record, the big-endian encoding of \<open>n mod 2 ^ (8 * ceil (norb / 8))\<close>: the record
  no longer holds \<open>n\<close>.
\<close>

theorem integer_to_bytes_wraps:
  assumes "1 \<le> norb" and "norb \<le> 64"
    and "2 ^ (8 * nat ((norb + 7) div 8)) \<le> unat n"
  shows "\<exists>bytes. integer_to_bytes n norb = Inr bytes
           \<and> length bytes = nat ((norb + 7) div 8)
           \<and> integer_to_bytes (take_bit (8 * length bytes) n) norb = Inr bytes
           \<and> be_value bytes = unat n mod 2 ^ (8 * length bytes)
           \<and> be_value bytes < unat n"
proof -
  let ?nb = "nat ((norb + 7) div 8)"
  have "be_value (be_bytes ?nb n) < 2 ^ (8 * ?nb)" by (simp add: be_value_be_bytes)
  with assms(3) have "be_value (be_bytes ?nb n) < unat n" by linarith
  then show ?thesis
    using assms(1,2)
    by (simp add: integer_to_bytes_be_bytes be_value_be_bytes be_bytes_take_bit)
qed

theorem integer_to_bytes_wraps_witness:
  "(2 :: nat) ^ (8 * nat ((4 + 7) div 8)) \<le> unat (0x0105 :: u64)
   \<and> integer_to_bytes 0x0105 4 = Inr [5]
   \<and> be_value [5] = unat (0x0105 :: u64) mod 2 ^ 8"
proof -
  have h: "(2 :: nat) ^ (8 * nat ((4 + 7) div 8)) \<le> unat (0x0105 :: u64)" by simp
  have b: "integer_to_bytes 0x0105 4 = Inr [5]"
    by (simp add: integer_to_bytes_be_bytes be_bytes_1)
  from integer_to_bytes_wraps [of 4 "0x0105", OF _ _ h] b
  have "be_value [5] = unat (0x0105 :: u64) mod 2 ^ (8 * length [5 :: u8])" by auto
  then show ?thesis using h b by simp
qed

section \<open>The merged set and its truncation\<close>

lemma get_unique_ci_strs_with_HF_set:
  assumes "with_hf sqd \<longrightarrow> num_elec < 64"
  shows "get_unique_ci_strs_with_HF sqd l r num_elec =
           Inr (sorted_list_of_set
                  ((if with_hf sqd then {2 ^ num_elec - 1} else {}) \<union> set l \<union> set r))"
proof -
  have "\<not> (with_hf sqd \<and> 64 \<le> num_elec)" using assms by auto
  then show ?thesis
    unfolding get_unique_ci_strs_with_HF_def Let_def
    by (simp only: if_False push_bit_eq_mult mult_1 sorted_sort_id
          sorted_list_of_set.sorted_sorted_key_list_of_set)
qed

lemma get_unique_ci_strs_with_HF_sorted:
  assumes "get_unique_ci_strs_with_HF sqd l r num_elec = Inr merged"
  shows "sorted merged \<and> distinct merged"
proof -
  from assms have "with_hf sqd \<longrightarrow> num_elec < 64"
    by (auto simp add: get_unique_ci_strs_with_HF_def split: if_splits)
  from get_unique_ci_strs_with_HF_set [OF this, of l r] assms
  have "merged = sorted_list_of_set
                  ((if with_hf sqd then {2 ^ num_elec - 1} else {}) \<union> set l \<union> set r)"
    by simp
  then show ?thesis by (simp only: sorted_list_of_set.sorted_sorted_key_list_of_set
      sorted_list_of_set.distinct_sorted_key_list_of_set simp_thms)
qed

lemma unat_hf_reference:
  assumes "num_elec < 64"
  shows "unat (2 ^ num_elec - 1 :: u64) = 2 ^ num_elec - 1"
proof -
  have "(2 ^ num_elec :: u64) \<noteq> 0" using assms by simp
  then have "unat (2 ^ num_elec - 1 :: u64) = unat (2 ^ num_elec :: u64) - 1"
    by (rule unat_minus_one)
  also have "unat (2 ^ num_elec :: u64) = 2 ^ num_elec"
    using assms by (simp add: unat_eq_nat_uint uint_2p word_gt_0)
  finally show ?thesis .
qed

text \<open>
  Claim C5. With \<open>with_hf\<close> set, for all input sequences and every \<open>num_elec < 64\<close>, the
  merged unique set that \<open>get_unique_ci_strs_with_HF\<close> returns contains the Hartree-Fock
  reference \<open>2 ^ num_elec - 1\<close>.
\<close>

theorem hartree_fock_reference_included:
  assumes "with_hf sqd" and "num_elec < 64"
  shows "\<exists>merged. get_unique_ci_strs_with_HF sqd l r num_elec = Inr merged
           \<and> 2 ^ num_elec - 1 \<in> set merged
           \<and> unat (2 ^ num_elec - 1 :: u64) = 2 ^ num_elec - 1"
proof -
  let ?S = "(if with_hf sqd then {2 ^ num_elec - 1} else {}) \<union> set l \<union> set r"
  have "get_unique_ci_strs_with_HF sqd l r num_elec = Inr (sorted_list_of_set ?S)"
    using assms by (intro get_unique_ci_strs_with_HF_set) simp
  moreover have "finite ?S" by simp
  then have "set (sorted_list_of_set ?S) = ?S"
    by (rule sorted_list_of_set.set_sorted_key_list_of_set)
  then have "2 ^ num_elec - 1 \<in> set (sorted_list_of_set ?S)"
    using assms(1) by simp
  ultimately show ?thesis using assms(2) by (simp only: unat_hf_reference) blast
qed

theorem hartree_fock_reference_included_witness:
  "with_hf example_sqd \<and> (2 :: nat) < 64
   \<and> get_unique_ci_strs_with_HF example_sqd [5] [6, 5] 2 = Inr [3, 5, 6]
   \<and> (2 ^ 2 - 1 :: u64) \<in> set [3, 5, 6]"
proof -
  have h: "with_hf example_sqd" by (simp add: example_sqd_def)
  have "{2 ^ 2 - 1} \<union> set [5] \<union> set [6, 5] = set [3, 5, 6 :: u64]" by auto
  then have e: "get_unique_ci_strs_with_HF example_sqd [5] [6, 5] 2 = Inr [3, 5, 6]"
    using h
    by (simp add: get_unique_ci_strs_with_HF_set sorted_list_of_set_sort_remdups
          word_le_nat_alt del: sorted_list_of_set.sorted_key_list_of_set_insert_remove)
  from hartree_fock_reference_included [OF h, of 2 "[5]" "[6, 5]"] e
  have "(2 ^ 2 - 1 :: u64) \<in> set [3, 5, 6]" by auto
  with h e show ?thesis by simp
qed

lemma take_smallest:
  fixes xs :: "'a :: linorder list"
  assumes "sorted xs" and "distinct xs"
  shows "\<forall>x \<in> set (take k xs). \<forall>y \<in> set xs - set (take k xs). x < y"
proof (intro ballI)
  fix x y assume x: "x \<in> set (take k xs)" and y: "y \<in> set xs - set (take k xs)"
  from x obtain i where i: "i < length xs" "i < k" "x = xs ! i"
    by (auto simp add: in_set_conv_nth)
  from y obtain j where j: "j < length xs" "y = xs ! j" by (auto simp add: in_set_conv_nth)
  have "k \<le> j"
  proof (rule ccontr)
    assume "\<not> k \<le> j"
    then have "xs ! j \<in> set (take k xs)"
      using j(1) by (auto simp add: in_set_conv_nth intro!: exI [of _ j])
    with y j(2) show False by simp
  qed
  with i have "i < j" by simp
  then have "xs ! i \<le> xs ! j" using assms(1) j(1) by (simp add: sorted_iff_nth_mono)
  moreover have "xs ! i \<noteq> xs ! j"
    using \<open>i < j\<close> i(1) j(1) assms(2) by (simp add: nth_eq_iff_index_eq)
  ultimately show "x < y" using i(3) j(2) by simp
qed

section \<open>The pipeline, stage by stage\<close>

lemma files_log [simp]: "files (log sqd msgs w) = files w"
  by (simp add: log_def)

lemma can_open_log [simp]: "can_open (log sqd msgs w) = can_open w"
  by (simp add: log_def)

lemma cerr_log [simp]: "cerr (log sqd msgs w) = cerr w"
  by (simp add: log_def)

lemma truncate_unique_ci_strs_fst:
  "fst (truncate_unique_ci_strs sqd u mx w) = take mx u"
  by (simp add: truncate_unique_ci_strs_def Let_def)

lemma truncate_unique_ci_strs_world [simp]:
  "files (snd (truncate_unique_ci_strs sqd u mx w)) = files w"
  "can_open (snd (truncate_unique_ci_strs sqd u mx w)) = can_open w"
  "cerr (snd (truncate_unique_ci_strs sqd u mx w)) = cerr w"
  by (simp_all add: truncate_unique_ci_strs_def Let_def)

lemma write_alphadets_file_stages:
  assumes "write_alphadets_file sqd norb num_elec batch mx i w = Inr (f, w')"
  shows "\<exists>ci_strs merged bytestrings w4.
           bitstring_matrix_to_ci_strs batch False = Inr ci_strs
         \<and> get_unique_ci_strs_with_HF sqd (fst ci_strs) (snd ci_strs) num_elec = Inr merged
         \<and> ci_strs_to_bytes (take mx merged) (static_cast_int norb) = Inr bytestrings
         \<and> f = alphadets_bin_file sqd i
         \<and> files w4 = files w \<and> can_open w4 = can_open w \<and> cerr w4 = cerr w
         \<and> w' = write_bytestrings_to_file bytestrings f w4"
proof -
  from assms obtain ci_strs where cs: "bitstring_matrix_to_ci_strs batch False = Inr ci_strs"
    by (auto simp add: write_alphadets_file_def Let_def split: sum.splits)
  from assms cs obtain merged where
    m: "get_unique_ci_strs_with_HF sqd (fst ci_strs) (snd ci_strs) num_elec = Inr merged"
    by (auto simp add: write_alphadets_file_def Let_def split: sum.splits)
  define w3 where "w3 =
    log sqd [''number of items in right ci_strs:'', to_string (length (snd ci_strs))]
      (log sqd [''number of items in left ci_strs:'', to_string (length (fst ci_strs))]
        (log sqd [''number of items in a batch: '', to_string (length batch)] w))"
  define w4 where "w4 = snd (truncate_unique_ci_strs sqd merged mx w3)"
  have t: "truncate_unique_ci_strs sqd merged mx w3 = (take mx merged, w4)"
    by (simp add: w4_def prod_eq_iff truncate_unique_ci_strs_fst)
  from assms cs m t obtain bytestrings where
    b: "ci_strs_to_bytes (take mx merged) (static_cast_int norb) = Inr bytestrings"
    by (auto simp add: write_alphadets_file_def Let_def w3_def split: sum.splits)
  from assms cs m t b have "f = alphadets_bin_file sqd i"
    and "w' = write_bytestrings_to_file bytestrings f w4"
    by (auto simp add: write_alphadets_file_def Let_def w3_def)
  moreover have "files w4 = files w \<and> can_open w4 = can_open w \<and> cerr w4 = cerr w"
    by (simp add: w4_def w3_def)
  ultimately show ?thesis using cs m b by blast
qed

subsection \<open>The scenario batch\<close>

lemma example_batch_ci_strs:
  "bitstring_matrix_to_ci_strs example_batch True = Inr ([1], [2, 3])"
  "bitstring_matrix_to_ci_strs example_batch False = Inr ([1, 2, 3], [1, 2, 3])"
  by (simp_all add: example_batch_def bitstring_matrix_to_ci_strs_def ci_strs_for_norb_def
        encode_config_def pow2_u64_def upt_rec sorted_list_of_set_sort_remdups
        word_le_nat_alt)

lemma example_merged:
  assumes "with_hf sqd"
  shows "get_unique_ci_strs_with_HF sqd [1, 2, 3] [1, 2, 3] 2 = Inr [1, 2, 3]"
proof -
  have "{2 ^ 2 - 1} \<union> set [1, 2, 3] \<union> set [1, 2, 3] = set [1, 2, 3 :: u64]" by auto
  then show ?thesis
    using assms
    by (simp add: get_unique_ci_strs_with_HF_set sorted_list_of_set_sort_remdups
          word_le_nat_alt del: sorted_list_of_set.sorted_key_list_of_set_insert_remove)
qed

lemma to_string_digit: "n < 10 \<Longrightarrow> to_string n = [digit_char n]"
  by (simp add: to_string.simps)

lemma example_run_budget_10:
  assumes "with_hf sqd"
  shows "write_alphadets_file sqd 4 2 example_batch 10 i w =
      Inr (alphadets_bin_file sqd i,
           write_bytestrings_to_file [[1], [2], [3]] (alphadets_bin_file sqd i)
            (log sqd [''number of unique ci_strs:'', ''3'']
              (log sqd [''number of items in right ci_strs:'', ''3'']
                (log sqd [''number of items in left ci_strs:'', ''3'']
                  (log sqd [''number of items in a batch: '', ''2''] w)))))"
proof -
  have len: "length example_batch = 2" by (simp add: example_batch_def)
  have cast: "static_cast_int 4 = 4" by (simp add: static_cast_int_def)
  show ?thesis
    using assms
    by (simp add: write_alphadets_file_def example_batch_ci_strs example_merged
          truncate_unique_ci_strs_def len cast integer_to_bytes_be_bytes be_bytes_1
          to_string_digit digit_char_def)
qed

lemma example_run_budget_2:
  assumes "with_hf sqd"
  shows "write_alphadets_file sqd 4 2 example_batch 2 i w =
      Inr (alphadets_bin_file sqd i,
           write_bytestrings_to_file [[1], [2]] (alphadets_bin_file sqd i)
            (log sqd [''number of unique ci_strs:'', ''2'', '', truncated:'', ''1'']
              (log sqd [''number of items in right ci_strs:'', ''3'']
                (log sqd [''number of items in left ci_strs:'', ''3'']
                  (log sqd [''number of items in a batch: '', ''2''] w)))))"
proof -
  have len: "length example_batch = 2" by (simp add: example_batch_def)
  have cast: "static_cast_int 4 = 4" by (simp add: static_cast_int_def)
  show ?thesis
    using assms
    by (simp add: write_alphadets_file_def example_batch_ci_strs example_merged
          truncate_unique_ci_strs_def len cast integer_to_bytes_be_bytes be_bytes_1
          to_string_digit digit_char_def)
qed

lemma example_file_name: "alphadets_bin_file example_sqd 0 = ''AlphaDets_run_0_cpp.bin''"
  by (simp add: alphadets_bin_file_def example_sqd_def to_string_digit digit_char_def)

text \<open>
  Claim C3. For every batch and configuration, the sequence of CI strings that
  \<open>write_alphadets_file\<close> serialises is sorted ascending, it is never longer than
  \<open>maximum_numbers_of_ctrs\<close>, and whenever the merged unique set is larger than that
  budget, the retained elements are exactly the budget's number of smallest members of
  the set. Here the claim is stated of every call that returns, \<open>serialized\<close> being the
  sequence whose records make up the file.
\<close>

theorem write_alphadets_file_sorted_truncated:
  assumes "write_alphadets_file sqd norb num_elec batch mx i w = Inr (f, w')"
  shows "\<exists>ci_strs merged serialized bytestrings.
           bitstring_matrix_to_ci_strs batch False = Inr ci_strs
         \<and> get_unique_ci_strs_with_HF sqd (fst ci_strs) (snd ci_strs) num_elec = Inr merged
         \<and> ci_strs_to_bytes serialized (static_cast_int norb) = Inr bytestrings
         \<and> files w' = (if can_open w f then (files w)(f \<mapsto> concat bytestrings) else files w)
         \<and> sorted serialized \<and> distinct serialized
         \<and> length serialized \<le> mx
         \<and> set serialized \<subseteq> set merged
         \<and> (if mx < length merged
              then length serialized = mx
                 \<and> (\<forall>x \<in> set serialized. \<forall>y \<in> set merged - set serialized. x < y)
              else serialized = merged)"
proof -
  from write_alphadets_file_stages [OF assms] obtain ci_strs merged bytestrings w4 where
    s: "bitstring_matrix_to_ci_strs batch False = Inr ci_strs"
       "get_unique_ci_strs_with_HF sqd (fst ci_strs) (snd ci_strs) num_elec = Inr merged"
       "ci_strs_to_bytes (take mx merged) (static_cast_int norb) = Inr bytestrings"
       "files w4 = files w" "can_open w4 = can_open w"
       "w' = write_bytestrings_to_file bytestrings f w4"
    by blast
  have sd: "sorted merged" "distinct merged"
    using get_unique_ci_strs_with_HF_sorted [OF s(2)] by simp_all
  have "files w' = (if can_open w f then (files w)(f \<mapsto> concat bytestrings) else files w)"
    using s(4,5,6) by (simp add: write_bytestrings_to_file_files)
  moreover have "sorted (take mx merged)" "distinct (take mx merged)"
    using sd by (simp_all add: sorted_wrt_take)
  moreover have "length (take mx merged) \<le> mx" by simp
  moreover have "set (take mx merged) \<subseteq> set merged" by (rule set_take_subset)
  moreover have "if mx < length merged
              then length (take mx merged) = mx
                 \<and> (\<forall>x \<in> set (take mx merged). \<forall>y \<in> set merged - set (take mx merged). x < y)
              else take mx merged = merged"
    using take_smallest [OF sd, of mx] by simp
  ultimately show ?thesis using s(1,2,3) by blast
qed

theorem write_alphadets_file_sorted_truncated_witness:
  "\<exists>w' serialized bytestrings.
       write_alphadets_file example_sqd 4 2 example_batch 2 0 writable_world =
         Inr (''AlphaDets_run_0_cpp.bin'', w')
     \<and> ci_strs_to_bytes serialized (static_cast_int 4) = Inr bytestrings
     \<and> files w' = [''AlphaDets_run_0_cpp.bin'' \<mapsto> concat bytestrings]
     \<and> sorted serialized \<and> length serialized = 2 \<and> set serialized \<subseteq> {1, 2, 3}
     \<and> Ball (set serialized) (\<lambda>x. Ball ({1, 2, 3} - set serialized) (\<lambda>y. x < y))"
proof -
  have h: "with_hf example_sqd" by (simp add: example_sqd_def)
  let ?w = "write_bytestrings_to_file [[1], [2]] (alphadets_bin_file example_sqd 0)
            (log example_sqd [''number of unique ci_strs:'', ''2'', '', truncated:'', ''1'']
              (log example_sqd [''number of items in right ci_strs:'', ''3'']
                (log example_sqd [''number of items in left ci_strs:'', ''3'']
                  (log example_sqd [''number of items in a batch: '', ''2'']
                     writable_world))))"
  have run: "write_alphadets_file example_sqd 4 2 example_batch 2 0 writable_world =
               Inr (alphadets_bin_file example_sqd 0, ?w)"
    using h by (rule example_run_budget_2)
  from write_alphadets_file_sorted_truncated [OF run]
  obtain ci_strs merged serialized bytestrings where
    s: "bitstring_matrix_to_ci_strs example_batch False = Inr ci_strs"
       "get_unique_ci_strs_with_HF example_sqd (fst ci_strs) (snd ci_strs) 2 = Inr merged"
       "ci_strs_to_bytes serialized (static_cast_int 4) = Inr bytestrings"
       "files ?w = (if can_open writable_world (alphadets_bin_file example_sqd 0)
                    then (files writable_world)
                           (alphadets_bin_file example_sqd 0 \<mapsto> concat bytestrings)
                    else files writable_world)"
       "sorted serialized" "length serialized \<le> 2" "set serialized \<subseteq> set merged"
       "if 2 < length merged
        then length serialized = 2
           \<and> (\<forall>x \<in> set serialized. \<forall>y \<in> set merged - set serialized. x < y)
        else serialized = merged"
    by blast
  from s(1) have c: "ci_strs = ([1, 2, 3], [1, 2, 3])" by (simp add: example_batch_ci_strs)
  with s(2) h have m: "merged = [1, 2, 3]" by (simp add: example_merged)
  have "files ?w = [''AlphaDets_run_0_cpp.bin'' \<mapsto> concat bytestrings]"
    using s(4) by (simp add: example_file_name writable_world_def)
  moreover have "length serialized = 2"
    and "Ball (set serialized) (\<lambda>x. Ball ({1, 2, 3} - set serialized) (\<lambda>y. x < y))"
    using s(8) m by simp_all
  moreover have "set serialized \<subseteq> {1, 2, 3}" using s(7) m by auto
  ultimately show ?thesis
    using run s(3,5) by (simp only: example_file_name) blast
qed

text \<open>
  Claim C6. For \<open>norb = 4\<close>, \<open>num_elec = 2\<close>, the reference enabled, closed-shell mode and
  the batch of two 8-bit configurations with low halves \<open>1,1,0,0\<close> and \<open>0,1,0,0\<close> and
  high halves \<open>1,0,0,0\<close>: the merged unique set is \<open>{1, 2, 3}\<close>; with budget 10 the file
  holds exactly the three one-byte records \<open>0x01, 0x02, 0x03\<close> in ascending order; with
  budget 2 it holds exactly the two bytes \<open>0x01, 0x02\<close>, and the logged number of dropped
  entries is 1.
\<close>

theorem scenario_norb_4:
  assumes "with_hf sqd" and "can_open w (alphadets_bin_file sqd i)"
  shows "bitstring_matrix_to_ci_strs example_batch False = Inr ([1, 2, 3], [1, 2, 3])
       \<and> get_unique_ci_strs_with_HF sqd [1, 2, 3] [1, 2, 3] 2 = Inr [1, 2, 3]
       \<and> (\<exists>w'. write_alphadets_file sqd 4 2 example_batch 10 i w =
                 Inr (alphadets_bin_file sqd i, w')
              \<and> files w' = (files w)(alphadets_bin_file sqd i \<mapsto> [1, 2, 3])
              \<and> cout w' =
                  (if verbose sqd
                   then cout w @ [''number of items in a batch: 2'',
                                  ''number of items in left ci_strs:3'',
                                  ''number of items in right ci_strs:3'',
                                  ''number of unique ci_strs:3'']
                   else cout w))
       \<and> (\<exists>w'. write_alphadets_file sqd 4 2 example_batch 2 i w =
                 Inr (alphadets_bin_file sqd i, w')
              \<and> files w' = (files w)(alphadets_bin_file sqd i \<mapsto> [1, 2])
              \<and> cout w' =
                  (if verbose sqd
                   then cout w @ [''number of items in a batch: 2'',
                                  ''number of items in left ci_strs:3'',
                                  ''number of items in right ci_strs:3'',
                                  ''number of unique ci_strs:2, truncated:1'']
                   else cout w))"
  using assms
  by (simp add: example_run_budget_10 example_run_budget_2 example_batch_ci_strs
        example_merged write_bytestrings_to_file_def log_def)

theorem scenario_norb_4_witness:
  "\<exists>w'. write_alphadets_file example_sqd 4 2 example_batch 2 0 writable_world =
          Inr (''AlphaDets_run_0_cpp.bin'', w')
      \<and> files w' = [''AlphaDets_run_0_cpp.bin'' \<mapsto> [1, 2]]
      \<and> cout w' = [''number of items in a batch: 2'',
                    ''number of items in left ci_strs:3'',
                    ''number of items in right ci_strs:3'',
                    ''number of unique ci_strs:2, truncated:1'']"
proof -
  have h: "with_hf example_sqd" and v: "verbose example_sqd"
    by (simp_all add: example_sqd_def)
  have o: "can_open writable_world (alphadets_bin_file example_sqd 0)"
    by (simp add: writable_world_def)
  from scenario_norb_4 [OF h o] show ?thesis
    by (simp add: example_file_name v writable_world_def)
qed

section \<open>Sectors and the closed-shell union\<close>

lemma encode_config_halves:
  assumes "norb \<le> 64" and "2 * norb \<le> length row"
  shows "encode_config norb row =
           Inr (ci_value (low_half norb row), ci_value (high_half norb row))"
  using assms
  by (simp add: encode_config_def sector_loop_ci_value low_half_def high_half_def)

lemma encode_configs_halves:
  assumes "norb \<le> 64" and "\<forall>row \<in> set m. 2 * norb \<le> length row"
  shows "encode_configs norb m =
           Inr (map (\<lambda>row. ci_value (low_half norb row)) m,
                map (\<lambda>row. ci_value (high_half norb row)) m)"
  using assms by (induction m) (simp_all add: encode_config_halves)

lemma ci_strs_for_norb_closed:
  "ci_strs_for_norb m norb False =
     (case ci_strs_for_norb m norb True of
        Inl e \<Rightarrow> Inl e
      | Inr (r, l) \<Rightarrow>
          Inr (sorted_list_of_set (set r \<union> set l), sorted_list_of_set (set r \<union> set l)))"
  by (auto simp add: ci_strs_for_norb_def Let_def Un_commute split: sum.splits)

text \<open>
  Claim C4. For every input batch, when \<open>open_shell\<close> is false,
  \<open>bitstring_matrix_to_ci_strs\<close> returns two equal collections, each the union of the
  unique CI strings that the two sectors give independently, that is, with \<open>open_shell\<close>
  true. A batch on which the open-shell call does not return stops the closed-shell call
  in the same way.
\<close>

theorem closed_shell_union:
  "bitstring_matrix_to_ci_strs m False =
     (case bitstring_matrix_to_ci_strs m True of
        Inl e \<Rightarrow> Inl e
      | Inr (r, l) \<Rightarrow>
          Inr (sorted_list_of_set (set r \<union> set l), sorted_list_of_set (set r \<union> set l)))"
  by (cases m) (simp_all add: bitstring_matrix_to_ci_strs_def ci_strs_for_norb_closed)

theorem closed_shell_union_witness:
  "bitstring_matrix_to_ci_strs example_batch True = Inr ([1], [2, 3])
   \<and> bitstring_matrix_to_ci_strs example_batch False = Inr ([1, 2, 3], [1, 2, 3])
   \<and> set [1, 2, 3 :: u64] = set [1] \<union> set [2, 3]"
  using closed_shell_union [of example_batch]
  by (auto simp add: example_batch_ci_strs)

text \<open>
  Claim C7, as amended. The code names the value of bits \<open>[0, norb)\<close> left and that of
  bits \<open>[norb, 2 * norb)\<close> right, and returns the pair (right, left). For a batch that is
  not empty, of bit vectors of length \<open>2 * norb\<close> with \<open>norb \<le> 64\<close>: with \<open>open_shell\<close>
  true the first component lists in ascending order the distinct base-2 values of the
  high halves and the second those of the low halves; with \<open>open_shell\<close> false both
  components list the union of the two.
\<close>

theorem sector_halves:
  assumes "m \<noteq> []" and "norb = length (m ! 0) div 2" and "norb \<le> 64"
    and "\<forall>row \<in> set m. length row = 2 * norb"
  shows "bitstring_matrix_to_ci_strs m True =
           Inr (sorted_list_of_set ((\<lambda>row. ci_value (high_half norb row)) ` set m),
                sorted_list_of_set ((\<lambda>row. ci_value (low_half norb row)) ` set m))
       \<and> bitstring_matrix_to_ci_strs m False =
           Inr (sorted_list_of_set ((\<lambda>row. ci_value (high_half norb row)) ` set m
                                  \<union> (\<lambda>row. ci_value (low_half norb row)) ` set m),
                sorted_list_of_set ((\<lambda>row. ci_value (high_half norb row)) ` set m
                                  \<union> (\<lambda>row. ci_value (low_half norb row)) ` set m))
       \<and> (\<forall>row \<in> set m.
             unat (ci_value (low_half norb row)) = base2_value (low_half norb row)
           \<and> unat (ci_value (high_half norb row)) = base2_value (high_half norb row))"
proof -
  from assms(1) obtain row0 rows where m: "m = row0 # rows" by (cases m) auto
  with assms(2) have n: "length row0 div 2 = norb" by simp
  have "encode_configs norb m =
           Inr (map (\<lambda>row. ci_value (low_half norb row)) m,
                map (\<lambda>row. ci_value (high_half norb row)) m)"
    using assms(3,4) by (intro encode_configs_halves) simp_all
  then have "bitstring_matrix_to_ci_strs m os =
     Inr (sorted_list_of_set
            (if \<not> os then (\<lambda>row. ci_value (low_half norb row)) ` set m
                            \<union> (\<lambda>row. ci_value (high_half norb row)) ` set m
             else (\<lambda>row. ci_value (high_half norb row)) ` set m),
          sorted_list_of_set
            (if \<not> os then (\<lambda>row. ci_value (low_half norb row)) ` set m
                            \<union> (\<lambda>row. ci_value (high_half norb row)) ` set m
             else (\<lambda>row. ci_value (low_half norb row)) ` set m))" for os
    by (simp add: bitstring_matrix_to_ci_strs_def ci_strs_for_norb_def m n Let_def
          del: encode_configs.simps)
  from this [of True] this [of False]
  have "bitstring_matrix_to_ci_strs m True =
           Inr (sorted_list_of_set ((\<lambda>row. ci_value (high_half norb row)) ` set m),
                sorted_list_of_set ((\<lambda>row. ci_value (low_half norb row)) ` set m))"
    and "bitstring_matrix_to_ci_strs m False =
           Inr (sorted_list_of_set ((\<lambda>row. ci_value (high_half norb row)) ` set m
                                  \<union> (\<lambda>row. ci_value (low_half norb row)) ` set m),
                sorted_list_of_set ((\<lambda>row. ci_value (high_half norb row)) ` set m
                                  \<union> (\<lambda>row. ci_value (low_half norb row)) ` set m))"
    by (simp_all add: Un_commute)
  moreover have "\<forall>row \<in> set m.
             unat (ci_value (low_half norb row)) = base2_value (low_half norb row)
           \<and> unat (ci_value (high_half norb row)) = base2_value (high_half norb row)"
    using assms(3) by (simp add: unat_ci_value low_half_def high_half_def)
  ultimately show ?thesis by blast
qed

theorem sector_halves_witness:
  "bitstring_matrix_to_ci_strs [[True, False, False, False]] True = Inr ([0], [1])
   \<and> bitstring_matrix_to_ci_strs [[True, False, False, False]] False = Inr ([0, 1], [0, 1])
   \<and> base2_value (high_half 2 [True, False, False, False]) = 0
   \<and> base2_value (low_half 2 [True, False, False, False]) = 1"
proof -
  have h: "[[True, False, False, False]] \<noteq> []"
    "(2 :: nat) = length ([[True, False, False, False]] ! 0) div 2" "(2 :: nat) \<le> 64"
    "\<forall>row \<in> set [[True, False, False, False]]. length row = 2 * 2"
    by simp_all
  have v: "ci_value [False, False] = 0" "ci_value [True, False] = 1"
    by (simp_all add: ci_value_def)
  from sector_halves [OF h] show ?thesis
    by (simp add: v high_half_def low_half_def)
qed

text \<open>
  The claim C7 as the specification words it, that the first component holds the values
  of the low halves and the second those of the high halves, fails on the one-row batch
  with bits \<open>1,0,0,0\<close> (\<open>norb = 2\<close>, low half of value 1, high half of value 0), in
  either mode.
\<close>

theorem right_sector_low_half_counterexample:
  "ci_value (low_half 2 [True, False, False, False]) = 1
   \<and> ci_value (high_half 2 [True, False, False, False]) = 0
   \<and> bitstring_matrix_to_ci_strs [[True, False, False, False]] True = Inr ([0], [1])
   \<and> bitstring_matrix_to_ci_strs [[True, False, False, False]] True \<noteq>
       Inr ([ci_value (low_half 2 [True, False, False, False])],
            [ci_value (high_half 2 [True, False, False, False])])
   \<and> bitstring_matrix_to_ci_strs [[True, False, False, False]] False \<noteq>
       Inr ([ci_value (low_half 2 [True, False, False, False])],
            [ci_value (high_half 2 [True, False, False, False])])"
  by (simp add: ci_value_def high_half_def low_half_def bitstring_matrix_to_ci_strs_def
        ci_strs_for_norb_def encode_config_def pow2_u64_def upt_rec
        sorted_list_of_set_sort_remdups)

section \<open>Failures\<close>

lemma write_alphadets_file_result:
  "write_alphadets_file sqd norb num_elec batch mx i w =
     (case bitstring_matrix_to_ci_strs batch False of
        Inl e \<Rightarrow> Inl e
      | Inr ci_strs \<Rightarrow>
         (case get_unique_ci_strs_with_HF sqd (fst ci_strs) (snd ci_strs) num_elec of
            Inl e \<Rightarrow> Inl e
          | Inr merged \<Rightarrow>
             (case ci_strs_to_bytes (take mx merged) (static_cast_int norb) of
                Inl e \<Rightarrow> Inl e
              | Inr bytestrings \<Rightarrow>
                  Inr (alphadets_bin_file sqd i,
                       write_bytestrings_to_file bytestrings (alphadets_bin_file sqd i)
                         (snd (truncate_unique_ci_strs sqd merged mx
                           (log sqd [''number of items in right ci_strs:'',
                                     to_string (length (snd ci_strs))]
                             (log sqd [''number of items in left ci_strs:'',
                                       to_string (length (fst ci_strs))]
                               (log sqd [''number of items in a batch: '',
                                         to_string (length batch)] w)))))))))"
  by (simp add: write_alphadets_file_def Let_def case_prod_beta truncate_unique_ci_strs_fst
        split: sum.splits)

lemma log_can_open_update:
  "log sqd msgs (w\<lparr>can_open := c\<rparr>) = (log sqd msgs w)\<lparr>can_open := c\<rparr>"
  by (simp add: log_def)

lemma truncate_can_open_update:
  "snd (truncate_unique_ci_strs sqd u mx (w\<lparr>can_open := c\<rparr>)) =
     (snd (truncate_unique_ci_strs sqd u mx w))\<lparr>can_open := c\<rparr>"
  by (simp add: truncate_unique_ci_strs_def Let_def log_can_open_update)

lemma write_bytestrings_to_file_cout [simp]:
  "cout (write_bytestrings_to_file bss f w) = cout w"
  by (simp add: write_bytestrings_to_file_def)

lemma write_bytestrings_to_file_closed:
  assumes "\<not> can_open w f"
  shows "write_bytestrings_to_file bss f w =
           w\<lparr>cerr := cerr w @ [''Error: Could not open file '' @ f]\<rparr>"
  using assms by (simp add: write_bytestrings_to_file_def)

text \<open>
  Claim C8, as amended. If opening the output file fails, \<open>write_bytestrings_to_file\<close>
  writes the line \<open>Error: Could not open file\<close> with the file's name to \<open>std::cerr\<close> and
  returns without writing; no failure reaches the caller. \<open>write_alphadets_file\<close> then
  ends as it would have ended had the file been opened: where that call returns a file
  name, this one returns the same name, with the same log, and leaves every file as it
  was.
\<close>

theorem open_failure_returns_file_name:
  assumes "\<not> can_open w (alphadets_bin_file sqd i)"
  shows "write_bytestrings_to_file bytestrings (alphadets_bin_file sqd i) w =
           w\<lparr>cerr := cerr w @ [''Error: Could not open file '' @ alphadets_bin_file sqd i]\<rparr>
       \<and> (case write_alphadets_file sqd norb num_elec batch mx i (w\<lparr>can_open := \<lambda>_. True\<rparr>) of
            Inl e \<Rightarrow> write_alphadets_file sqd norb num_elec batch mx i w = Inl e
          | Inr (f, v) \<Rightarrow>
              (\<exists>w'. write_alphadets_file sqd norb num_elec batch mx i w = Inr (f, w')
                  \<and> f = alphadets_bin_file sqd i
                  \<and> files w' = files w
                  \<and> cerr w' = cerr w @ [''Error: Could not open file '' @ f]
                  \<and> cout w' = cout v))"
  using assms
  by (simp add: write_alphadets_file_result write_bytestrings_to_file_closed
        log_can_open_update truncate_can_open_update split: sum.splits)

theorem open_failure_returns_file_name_witness:
  "\<not> can_open unwritable_world (alphadets_bin_file example_sqd 0)
   \<and> (\<exists>w'. write_alphadets_file example_sqd 4 2 example_batch 10 0 unwritable_world =
              Inr (''AlphaDets_run_0_cpp.bin'', w')
          \<and> files w' = Map.empty
          \<and> cerr w' = [''Error: Could not open file AlphaDets_run_0_cpp.bin''])"
proof -
  have h: "\<not> can_open unwritable_world (alphadets_bin_file example_sqd 0)"
    by (simp add: unwritable_world_def)
  have hf: "with_hf example_sqd" by (simp add: example_sqd_def)
  from open_failure_returns_file_name [OF h, of "[]" 4 2 example_batch 10]
  show ?thesis
    using h by (simp add: example_run_budget_10 [OF hf] example_file_name unwritable_world_def)
qed

text \<open>
  The claim C8 as the specification words it fails: with no file that can be opened,
  \<open>write_alphadets_file\<close> still returns the artifact's file name, and the only trace of
  the failure is a line on \<open>std::cerr\<close>.
\<close>

theorem open_failure_surfaces_counterexample:
  "\<not> can_open unwritable_world ''AlphaDets_run_0_cpp.bin''
   \<and> write_alphadets_file example_sqd 4 2 example_batch 10 0 unwritable_world =
       Inr (''AlphaDets_run_0_cpp.bin'',
            unwritable_world
              \<lparr>cout := [''number of items in a batch: 2'',
                        ''number of items in left ci_strs:3'',
                        ''number of items in right ci_strs:3'',
                        ''number of unique ci_strs:3''],
               cerr := [''Error: Could not open file AlphaDets_run_0_cpp.bin'']\<rparr>)"
proof -
  have hf: "with_hf example_sqd" and v: "verbose example_sqd"
    by (simp_all add: example_sqd_def)
  show ?thesis
    by (simp add: example_run_budget_10 [OF hf] example_file_name
          write_bytestrings_to_file_def log_def v unwritable_world_def)
qed

text \<open>
  Claim C9. For an empty batch the pipeline should stop with a failure before it
  produces output. The code has no such check: \<open>bitstring_matrix[0]\<close> is read from a
  vector with no element, which is outside what C++ defines, and nothing is raised.
  Whatever \<open>norb\<close> that read may yield, the code after it runs to its end on the empty
  batch and returns two empty collections.
\<close>

theorem empty_batch_unguarded:
  "bitstring_matrix_to_ci_strs [] open_shell = Inl Undefined_Behaviour
   \<and> write_alphadets_file sqd norb num_elec [] mx i w = Inl Undefined_Behaviour
   \<and> ci_strs_for_norb [] norb_read open_shell = Inr ([], [])"
  by (simp add: bitstring_matrix_to_ci_strs_def write_alphadets_file_def
        ci_strs_for_norb_def)

end
